theory Spec2Isabelle
  imports Main "HOL-Library.Multiset"
begin

section \<open>Binary search tree with cached size and height\<close>

text \<open>
  Embedding of \<open>buggy_cpp_samples/data_structure_bugs/data_structure_bugs.cpp\<close>.
  A shared pointer to a \<open>BSTreeNode\<close> is either null or points to a node that holds
  \<open>data\<close>, \<open>left\<close>, \<open>right\<close>, \<open>height\<close> and \<open>subtree_size\<close>. The program
  never lets two parents share a child, so the pointer graph is a tree and in-place
  mutation of a node is the construction of the updated node.
  The C++ \<open>int\<close> keys are only compared, never computed with; they are integers
  between \<open>INT_MIN\<close> and \<open>INT_MAX\<close>, the limits of a 32-bit \<open>int\<close>. The counter
  and the cached fields change by small steps per call and stay far from these limits in
  every state considered here; they are integers without wrap-around.
\<close>

datatype BSTreeNode =
  nullptr
  | Node (data: int) (left: BSTreeNode) (right: BSTreeNode) (height: int) (subtree_size: int)

record BinarySearchTree =
  root :: BSTreeNode
  total_nodes :: int

text \<open>The limits \<open>INT_MIN\<close> and \<open>INT_MAX\<close> of the standard library, for a 32-bit \<open>int\<close>.\<close>

definition INT_MIN :: int where
  "INT_MIN = - 2147483648"

definition INT_MAX :: int where
  "INT_MAX = 2147483647"

text \<open>The constructor \<open>BSTreeNode(int value)\<close>: a leaf with height 1 and size 1.\<close>

definition make_node :: "int \<Rightarrow> BSTreeNode" where
  "make_node v = Node v nullptr nullptr 1 1"

text \<open>The constructor \<open>BinarySearchTree()\<close>.\<close>

definition new_tree :: BinarySearchTree where
  "new_tree = \<lparr>root = nullptr, total_nodes = 0\<rparr>"

text \<open>
  Lines 86 to 89 of \<open>insert_recursive\<close>: the size written into a node on the
  insertion path, from the (already updated) children.
\<close>

definition insert_subtree_size :: "BSTreeNode \<Rightarrow> BSTreeNode \<Rightarrow> int" where
  "insert_subtree_size l r =
     (let s0 = 1;
          s1 = (if l \<noteq> nullptr then s0 + subtree_size l else s0);
          s2 = (if r \<noteq> nullptr then s1 + subtree_size r else s1)
      in s2 + 1)"

text \<open>Lines 92 to 94 of \<open>insert_recursive\<close>: the height written into that node.\<close>

definition insert_height :: "BSTreeNode \<Rightarrow> BSTreeNode \<Rightarrow> int" where
  "insert_height l r =
     (let left_height = (if l \<noteq> nullptr then height l else 0);
          right_height = (if r \<noteq> nullptr then height r else 0)
      in left_height + right_height)"

fun insert_recursive :: "BSTreeNode \<Rightarrow> int \<Rightarrow> BSTreeNode" where
  "insert_recursive nullptr v = make_node v"
| "insert_recursive (Node d l r h s) v =
     (if v < d then
        (let l' = insert_recursive l v
         in Node d l' r (insert_height l' r) (insert_subtree_size l' r))
      else if v > d then
        (let r' = insert_recursive r v
         in Node d l r' (insert_height l r') (insert_subtree_size l r'))
      else Node d l r h s)"

text \<open>
  \<open>find_min\<close> walks left while a left child exists. The source dereferences its
  argument, and \<open>remove_recursive\<close> only calls it on a non-null right child; the
  null case of the model is never reached.
\<close>

fun find_min :: "BSTreeNode \<Rightarrow> BSTreeNode" where
  "find_min nullptr = nullptr"
| "find_min (Node d l r h s) = (if l \<noteq> nullptr then find_min l else Node d l r h s)"

fun remove_recursive :: "BSTreeNode \<Rightarrow> int \<Rightarrow> BSTreeNode" where
  "remove_recursive nullptr v = nullptr"
| "remove_recursive (Node d l r h s) v =
     (if v < d then Node d (remove_recursive l v) r h s
      else if v > d then Node d l (remove_recursive r v) h s
      else if l = nullptr then r
      else if r = nullptr then l
      else (let min_node = find_min r
            in Node (data min_node) l (remove_recursive r (data min_node)) h s))"

fun search_recursive :: "BSTreeNode \<Rightarrow> int \<Rightarrow> bool" where
  "search_recursive nullptr v = False"
| "search_recursive (Node d l r h s) v =
     (if v = d then True
      else if v < d then search_recursive l v
      else search_recursive r v)"

fun check_bst_recursive :: "BSTreeNode \<Rightarrow> int \<Rightarrow> int \<Rightarrow> bool" where
  "check_bst_recursive nullptr min_val max_val = True"
| "check_bst_recursive (Node d l r h s) min_val max_val =
     (if d \<le> min_val \<or> d \<ge> max_val then False
      else check_bst_recursive l min_val d \<and> check_bst_recursive r d max_val)"

fun check_subtree_sizes :: "BSTreeNode \<Rightarrow> bool" where
  "check_subtree_sizes nullptr = True"
| "check_subtree_sizes (Node d l r h s) =
     (let left_size = (if l \<noteq> nullptr then subtree_size l else 0);
          right_size = (if r \<noteq> nullptr then subtree_size r else 0);
          expected_size = 1 + left_size + right_size
      in if s \<noteq> expected_size then False
         else check_subtree_sizes l \<and> check_subtree_sizes r)"

fun count_nodes :: "BSTreeNode \<Rightarrow> int" where
  "count_nodes nullptr = 0"
| "count_nodes (Node d l r h s) = 1 + count_nodes l + count_nodes r"

text \<open>The public operations of \<open>BinarySearchTree\<close>; console output is left out.\<close>

definition BinarySearchTree_insert :: "BinarySearchTree \<Rightarrow> int \<Rightarrow> BinarySearchTree" where
  "BinarySearchTree_insert t v =
     \<lparr>root = insert_recursive (root t) v, total_nodes = total_nodes t + 1\<rparr>"

definition search :: "BinarySearchTree \<Rightarrow> int \<Rightarrow> bool" where
  "search t v = search_recursive (root t) v"

definition BinarySearchTree_remove :: "BinarySearchTree \<Rightarrow> int \<Rightarrow> BinarySearchTree" where
  "BinarySearchTree_remove t v =
     \<lparr>root = remove_recursive (root t) v, total_nodes = total_nodes t - 1\<rparr>"

definition is_valid_bst :: "BinarySearchTree \<Rightarrow> bool" where
  "is_valid_bst t = check_bst_recursive (root t) INT_MIN INT_MAX"

definition sizes_correct :: "BinarySearchTree \<Rightarrow> bool" where
  "sizes_correct t = check_subtree_sizes (root t)"

definition count_correct :: "BinarySearchTree \<Rightarrow> bool" where
  "count_correct t = (count_nodes (root t) = total_nodes t)"

definition check_bst_invariant :: "BinarySearchTree \<Rightarrow> bool" where
  "check_bst_invariant t = (is_valid_bst t \<and> sizes_correct t \<and> count_correct t)"

text \<open>A client program: a sequence of calls on one tree, as \<open>main\<close> makes them.\<close>

datatype tree_op = Insert int | Remove int

fun apply_tree_op :: "BinarySearchTree \<Rightarrow> tree_op \<Rightarrow> BinarySearchTree" where
  "apply_tree_op t (Insert v) = BinarySearchTree_insert t v"
| "apply_tree_op t (Remove v) = BinarySearchTree_remove t v"

definition run_tree_ops :: "tree_op list \<Rightarrow> BinarySearchTree" where
  "run_tree_ops ops = foldl apply_tree_op new_tree ops"

definition insert_all :: "int list \<Rightarrow> BinarySearchTree" where
  "insert_all vs = foldl BinarySearchTree_insert new_tree vs"

section \<open>Priority queue on a vector\<close>

text \<open>
  \<open>PriorityQueue\<close> holds the vector \<open>heap\<close> and the flag \<open>is_max_heap\<close>. Indices are
  \<open>size_t\<close>; no vector can be long enough for \<open>2 * i + 2\<close> to wrap, so they are natural
  numbers. The elements are only compared.
\<close>

record PriorityQueue =
  heap :: "int list"
  is_max_heap :: bool

datatype error = EmptyContainer

definition new_queue :: "bool \<Rightarrow> PriorityQueue" where
  "new_queue max_heap = \<lparr>heap = [], is_max_heap = max_heap\<rparr>"

text \<open>\<open>std::swap(heap[i], heap[j])\<close> on the vector of the queue.\<close>

definition swap_heap :: "PriorityQueue \<Rightarrow> nat \<Rightarrow> nat \<Rightarrow> PriorityQueue" where
  "swap_heap pq i j = pq\<lparr>heap := (heap pq)[i := heap pq ! j, j := heap pq ! i]\<rparr>"

function heap_up :: "PriorityQueue \<Rightarrow> nat \<Rightarrow> PriorityQueue" where
  "heap_up pq index =
     (if index = 0 then pq
      else
        (let parent = (index - 1) div 2;
             should_swap = (if is_max_heap pq then heap pq ! index > heap pq ! parent
                            else heap pq ! index < heap pq ! parent)
         in if should_swap then heap_up (swap_heap pq index parent) parent else pq))"
  by pat_completeness auto
termination
  by (relation "measure (\<lambda>(pq, index). index)") auto

function heap_down :: "PriorityQueue \<Rightarrow> nat \<Rightarrow> PriorityQueue" where
  "heap_down pq index =
     (let left_child = 2 * index + 1;
          right_child = 2 * index + 2;
          target0 = index;
          target1 = (if left_child < length (heap pq) \<and>
                        (if is_max_heap pq then heap pq ! left_child > heap pq ! target0
                         else heap pq ! left_child < heap pq ! target0)
                     then left_child else target0);
          target = (if right_child < length (heap pq) \<and>
                       (if is_max_heap pq then heap pq ! right_child > heap pq ! target1
                        else heap pq ! right_child < heap pq ! target1)
                    then right_child else target1)
      in if target \<noteq> index then heap_down (swap_heap pq index target) target else pq)"
  by pat_completeness auto
termination
  by (relation "measure (\<lambda>(pq, index). length (heap pq) - index)")
    (auto simp: swap_heap_def Let_def split: if_splits)

definition PriorityQueue_insert :: "PriorityQueue \<Rightarrow> int \<Rightarrow> PriorityQueue" where
  "PriorityQueue_insert pq v =
     (let pq1 = pq\<lparr>heap := heap pq @ [v]\<rparr>
      in heap_up pq1 (length (heap pq1) - 1))"

text \<open>
  \<open>extract_top\<close> throws on an empty vector; otherwise it returns the old first element
  together with the queue it leaves behind.
\<close>

definition extract_top :: "PriorityQueue \<Rightarrow> error + (int \<times> PriorityQueue)" where
  "extract_top pq =
     (if heap pq = [] then Inl EmptyContainer
      else
        (let top_value = heap pq ! 0;
             pq1 = pq\<lparr>heap := (heap pq)[0 := last (heap pq)]\<rparr>;
             pq2 = pq1\<lparr>heap := butlast (heap pq1)\<rparr>;
             pq3 = (if heap pq2 \<noteq> [] then
                      (if length (heap pq2) > 3 then heap_down pq2 0 else pq2)
                    else pq2)
         in Inr (top_value, pq3)))"

text \<open>
  The loop of \<open>check_heap_property\<close> from index \<open>i\<close> on: it returns false at the first
  parent that compares wrongly with a child in range.
\<close>

function check_heap_from :: "PriorityQueue \<Rightarrow> nat \<Rightarrow> bool" where
  "check_heap_from pq i =
     (if i < length (heap pq) then
        (let left_child = 2 * i + 1;
             right_child = 2 * i + 2
         in if left_child < length (heap pq) \<and>
               \<not> (if is_max_heap pq then heap pq ! i \<ge> heap pq ! left_child
                  else heap pq ! i \<le> heap pq ! left_child)
            then False
            else if right_child < length (heap pq) \<and>
               \<not> (if is_max_heap pq then heap pq ! i \<ge> heap pq ! right_child
                  else heap pq ! i \<le> heap pq ! right_child)
            then False
            else check_heap_from pq (i + 1))
      else True)"
  by pat_completeness auto
termination
  by (relation "measure (\<lambda>(pq, i). length (heap pq) - i)") auto

definition check_heap_property :: "PriorityQueue \<Rightarrow> bool" where
  "check_heap_property pq = check_heap_from pq 0"

text \<open>A client that inserts a list of values, in order, into a fresh queue.\<close>

definition insert_values :: "bool \<Rightarrow> int list \<Rightarrow> PriorityQueue" where
  "insert_values max_heap vs = foldl PriorityQueue_insert (new_queue max_heap) vs"

text \<open>
  A client that calls \<open>extract_top\<close> \<open>n\<close> times and collects the returned values; the
  first exception ends it.
\<close>

fun extract_n :: "nat \<Rightarrow> PriorityQueue \<Rightarrow> error + (int list \<times> PriorityQueue)" where
  "extract_n 0 pq = Inr ([], pq)"
| "extract_n (Suc n) pq =
     (case extract_top pq of
        Inl e \<Rightarrow> Inl e
      | Inr (top_value, pq') \<Rightarrow>
          (case extract_n n pq' of
             Inl e \<Rightarrow> Inl e
           | Inr (tops, pq'') \<Rightarrow> Inr (top_value # tops, pq'')))"

section \<open>The invariants in the words of the specification\<close>

text \<open>
  The ordering predicate between a parent \<open>p\<close> and a child \<open>c\<close>: \<open>p \<ge> c\<close> in a
  max-first heap, \<open>p \<le> c\<close> in a min-first heap.
\<close>

definition ord_ok :: "bool \<Rightarrow> int \<Rightarrow> int \<Rightarrow> bool" where
  "ord_ok mx p c = (if mx then p \<ge> c else p \<le> c)"

text \<open>
  The heap-order property of the specification, stated from the child's side: every
  element but the first compares no better than its parent at \<open>(i - 1) div 2\<close>.
\<close>

definition spec_heap_order :: "PriorityQueue \<Rightarrow> bool" where
  "spec_heap_order pq =
     (\<forall>i. 0 < i \<and> i < length (heap pq) \<longrightarrow>
          ord_ok (is_max_heap pq) (heap pq ! ((i - 1) div 2)) (heap pq ! i))"

text \<open>
  The invariant of the upward sift: the heap order holds everywhere but between index
  \<open>k\<close> and its parent, and the children of \<open>k\<close> are in order with the parent of \<open>k\<close>.
\<close>

definition heap_order_except :: "PriorityQueue \<Rightarrow> nat \<Rightarrow> bool" where
  "heap_order_except pq k =
     ((\<forall>i. 0 < i \<and> i < length (heap pq) \<and> i \<noteq> k \<longrightarrow>
          ord_ok (is_max_heap pq) (heap pq ! ((i - 1) div 2)) (heap pq ! i)) \<and>
      (\<forall>i. 0 < k \<and> 0 < i \<and> i < length (heap pq) \<and> (i - 1) div 2 = k \<longrightarrow>
          ord_ok (is_max_heap pq) (heap pq ! ((k - 1) div 2)) (heap pq ! i)))"

text \<open>The keys a tree holds.\<close>

fun tree_keys :: "BSTreeNode \<Rightarrow> int set" where
  "tree_keys nullptr = {}"
| "tree_keys (Node d l r h s) = insert d (tree_keys l \<union> tree_keys r)"

text \<open>
  The BST ordering invariant of the specification's glossary: every key is strictly
  greater than all keys of its left subtree and strictly less than all keys of its right
  subtree.
\<close>

fun spec_bst_ordering :: "BSTreeNode \<Rightarrow> bool" where
  "spec_bst_ordering nullptr = True"
| "spec_bst_ordering (Node d l r h s) =
     ((\<forall>k \<in> tree_keys l. k < d) \<and> (\<forall>k \<in> tree_keys r. d < k) \<and>
      spec_bst_ordering l \<and> spec_bst_ordering r)"

declare heap_up.simps [simp del]
declare heap_down.simps [simp del]
declare check_heap_from.simps [simp del]

section \<open>The tree: cached fields, counter and audit\<close>

text \<open>
  Whenever \<open>insert_recursive\<close> descends below a node, the size it writes into that node
  is one more than the audit's \<open>check_subtree_sizes\<close> expects, so the audit of the sizes
  fails at that node.
\<close>

lemma insert_subtree_size_off_by_one:
  "insert_subtree_size l r =
     (1 + (if l \<noteq> nullptr then subtree_size l else 0)
        + (if r \<noteq> nullptr then subtree_size r else 0)) + 1"
  by (simp add: insert_subtree_size_def)

lemma insert_breaks_size_audit:
  "v \<noteq> d \<Longrightarrow> \<not> check_subtree_sizes (insert_recursive (Node d l r h s) v)"
  by (auto simp: Let_def insert_subtree_size_def)

text \<open>
  \<open>remove_recursive\<close> leaves the cached fields of every node it keeps as they were,
  also where a child has gone: on a tree whose cached fields are all right, the audit
  fails after the removal of a leaf.
\<close>

lemma remove_keeps_stale_size:
  "check_bst_invariant
     \<lparr>root = Node 50 (Node 30 nullptr nullptr 1 1) nullptr 2 2, total_nodes = 2\<rparr>
   \<and> root (BinarySearchTree_remove
        \<lparr>root = Node 50 (Node 30 nullptr nullptr 1 1) nullptr 2 2, total_nodes = 2\<rparr> 30)
       = Node 50 nullptr nullptr 2 2
   \<and> \<not> sizes_correct (BinarySearchTree_remove
        \<lparr>root = Node 50 (Node 30 nullptr nullptr 1 1) nullptr 2 2, total_nodes = 2\<rparr> 30)"
  by code_simp

text \<open>
  Claim C1. After an insert, every node's cached \<open>subtree_size\<close> should be
  \<open>1 + size(left) + size(right)\<close> and its cached \<open>height\<close> should be
  \<open>1 + max(height(left), height(right))\<close>. The code does otherwise: after inserting 50
  and then 30 the root has two nodes below and including it, yet its cached size is 3,
  and its cached height is 1 although its left child has height 1.
\<close>

theorem insert_cached_fields_diverge:
  "root (insert_all [50, 30]) = Node 50 (Node 30 nullptr nullptr 1 1) nullptr 1 3
   \<and> subtree_size (root (insert_all [50, 30])) = 3
   \<and> 1 + count_nodes (left (root (insert_all [50, 30])))
        + count_nodes (right (root (insert_all [50, 30]))) = 2
   \<and> height (root (insert_all [50, 30])) = 1
   \<and> 1 + max (height (left (root (insert_all [50, 30])))) 0 = 2
   \<and> \<not> sizes_correct (insert_all [50, 30])"
  by code_simp

text \<open>
  Claim C3. Inserting a key that is already present should change nothing, the counter
  included. The code increments \<open>total_nodes\<close> on every call: inserting 5 into the tree
  that holds only 5 leaves the nodes as they were and moves the counter from 1 to 2.
\<close>

theorem insert_existing_key_counts:
  "search (insert_all [5]) 5
   \<and> total_nodes (insert_all [5]) = 1
   \<and> total_nodes (BinarySearchTree_insert (insert_all [5]) 5) = 2
   \<and> root (BinarySearchTree_insert (insert_all [5]) 5) = root (insert_all [5])
   \<and> count_nodes (root (BinarySearchTree_insert (insert_all [5]) 5)) = 1"
  by code_simp

text \<open>
  Claim C4. Removing an absent key should leave the counter and the tree unchanged. The
  code decrements \<open>total_nodes\<close> on every call: removing 100 from the tree that holds
  only 50 leaves the nodes as they were, moves the counter from 1 to 0, and the audit,
  which passed before, fails.
\<close>

theorem remove_absent_key_counts:
  "\<not> search (insert_all [50]) 100
   \<and> total_nodes (insert_all [50]) = 1
   \<and> total_nodes (BinarySearchTree_remove (insert_all [50]) 100) = 0
   \<and> root (BinarySearchTree_remove (insert_all [50]) 100) = root (insert_all [50])
   \<and> check_bst_invariant (insert_all [50])
   \<and> \<not> check_bst_invariant (BinarySearchTree_remove (insert_all [50]) 100)"
  by code_simp

text \<open>
  Claim C5. After inserts of pairwise distinct keys into a fresh tree the audit should
  pass in all three checks. After inserting 50 and 30 the counter is 2 and the ordering
  and counter checks pass, but the size check fails, and so does the audit.
\<close>

theorem audit_fails_after_distinct_inserts:
  "distinct [50, 30 :: int]
   \<and> total_nodes (insert_all [50, 30]) = 2
   \<and> is_valid_bst (insert_all [50, 30])
   \<and> count_correct (insert_all [50, 30])
   \<and> \<not> sizes_correct (insert_all [50, 30])
   \<and> \<not> check_bst_invariant (insert_all [50, 30])"
  by code_simp

text \<open>
  Claim C7. After inserts of distinct keys and the removal of a present key, the key
  should be gone, the counter one less, and the audit should pass. After inserting 50 and
  30 and removing 30, the key is gone and the counter is one less, but the root keeps the
  cached size 3 with no child left, and the audit fails.
\<close>

theorem audit_fails_after_remove_present:
  "search (insert_all [50, 30]) 30
   \<and> \<not> search (BinarySearchTree_remove (insert_all [50, 30]) 30) 30
   \<and> total_nodes (BinarySearchTree_remove (insert_all [50, 30]) 30)
       = total_nodes (insert_all [50, 30]) - 1
   \<and> root (BinarySearchTree_remove (insert_all [50, 30]) 30) = Node 50 nullptr nullptr 1 3
   \<and> \<not> sizes_correct (BinarySearchTree_remove (insert_all [50, 30]) 30)
   \<and> \<not> check_bst_invariant (BinarySearchTree_remove (insert_all [50, 30]) 30)"
  by code_simp

section \<open>The tree: ordering\<close>

lemma tree_keys_insert: "tree_keys (insert_recursive t v) = insert v (tree_keys t)"
  by (induction t) (auto simp: make_node_def Let_def)

lemma bst_ordering_insert: "spec_bst_ordering t \<Longrightarrow> spec_bst_ordering (insert_recursive t v)"
  by (induction t) (auto simp: make_node_def Let_def tree_keys_insert)

lemma find_min_key: "t \<noteq> nullptr \<Longrightarrow> data (find_min t) \<in> tree_keys t"
  by (induction t) auto

lemma find_min_least:
  "t \<noteq> nullptr \<Longrightarrow> spec_bst_ordering t \<Longrightarrow> k \<in> tree_keys t \<Longrightarrow> data (find_min t) \<le> k"
proof (induction t)
  case nullptr
  then show ?case by simp
next
  case (Node d l r h s)
  show ?case
  proof (cases "l = nullptr")
    case True
    then show ?thesis using Node.prems by auto
  next
    case False
    have "data (find_min l) \<in> tree_keys l" using False by (rule find_min_key)
    then have "data (find_min l) < d" using Node.prems by auto
    moreover have "k \<in> tree_keys l \<Longrightarrow> data (find_min l) \<le> k"
      using Node.IH(1) False Node.prems by simp
    ultimately show ?thesis using False Node.prems by auto
  qed
qed

lemma tree_keys_remove:
  "spec_bst_ordering t \<Longrightarrow> tree_keys (remove_recursive t v) = tree_keys t - {v}"
proof (induction t arbitrary: v)
  case nullptr
  then show ?case by simp
next
  case (Node d l r h s)
  have ol: "spec_bst_ordering l" and or: "spec_bst_ordering r" using Node.prems by simp_all
  have L: "\<forall>k \<in> tree_keys l. k < d" and R: "\<forall>k \<in> tree_keys r. d < k"
    using Node.prems by simp_all
  consider (lt) "v < d" | (gt) "v > d" | (eq) "v = d" by linarith
  then show ?case
  proof cases
    case lt
    then show ?thesis using Node.IH(1) [OF ol, of v] L R by auto
  next
    case gt
    then show ?thesis using Node.IH(2) [OF or, of v] L R by auto
  next
    case eq
    show ?thesis
    proof (cases "l = nullptr \<or> r = nullptr")
      case True
      then show ?thesis using eq L R by auto
    next
      case False
      define m where "m = data (find_min r)"
      have mr: "m \<in> tree_keys r" using False find_min_key by (simp add: m_def)
      have "remove_recursive (Node d l r h s) v = Node m l (remove_recursive r m) h s"
        using eq False by (simp add: Let_def m_def)
      moreover have "tree_keys (remove_recursive r m) = tree_keys r - {m}"
        using Node.IH(2) [OF or] .
      ultimately show ?thesis using eq mr L R by auto
    qed
  qed
qed

lemma bst_ordering_remove: "spec_bst_ordering t \<Longrightarrow> spec_bst_ordering (remove_recursive t v)"
proof (induction t arbitrary: v)
  case nullptr
  then show ?case by simp
next
  case (Node d l r h s)
  have ol: "spec_bst_ordering l" and or: "spec_bst_ordering r" using Node.prems by simp_all
  have L: "\<forall>k \<in> tree_keys l. k < d" and R: "\<forall>k \<in> tree_keys r. d < k"
    using Node.prems by simp_all
  consider (lt) "v < d" | (gt) "v > d" | (eq) "v = d" by linarith
  then show ?case
  proof cases
    case lt
    then show ?thesis using Node.IH(1) [OF ol, of v] L R or by (simp add: tree_keys_remove [OF ol])
  next
    case gt
    then show ?thesis using Node.IH(2) [OF or, of v] L R ol by (simp add: tree_keys_remove [OF or])
  next
    case eq
    show ?thesis
    proof (cases "l = nullptr \<or> r = nullptr")
      case True
      then show ?thesis using eq ol or by auto
    next
      case False
      define m where "m = data (find_min r)"
      have rn: "r \<noteq> nullptr" using False by simp
      have mr: "m \<in> tree_keys r" using rn find_min_key by (simp add: m_def)
      have least: "\<And>k. k \<in> tree_keys r \<Longrightarrow> m \<le> k"
        using find_min_least [OF rn or] by (simp add: m_def)
      have req: "remove_recursive (Node d l r h s) v = Node m l (remove_recursive r m) h s"
        using eq False by (simp add: Let_def m_def)
      have kr: "tree_keys (remove_recursive r m) = tree_keys r - {m}"
        using tree_keys_remove [OF or] .
      have "\<forall>k \<in> tree_keys l. k < m" using L R mr by fastforce
      moreover have "\<forall>k \<in> tree_keys (remove_recursive r m). m < k"
        using kr least by fastforce
      moreover have "spec_bst_ordering (remove_recursive r m)" using Node.IH(2) [OF or] .
      ultimately show ?thesis using req ol by simp
    qed
  qed
qed

lemma check_bst_recursive_iff:
  "check_bst_recursive t lo hi =
     (spec_bst_ordering t \<and> (\<forall>k \<in> tree_keys t. lo < k \<and> k < hi))"
proof (induction t arbitrary: lo hi)
  case nullptr
  show ?case by simp
next
  case (Node d l r h s)
  show ?case unfolding check_bst_recursive.simps Node.IH spec_bst_ordering.simps tree_keys.simps
    by (auto; force)
qed

lemma search_recursive_iff: "spec_bst_ordering t \<Longrightarrow> search_recursive t v = (v \<in> tree_keys t)"
  by (induction t) auto

lemma run_tree_ops_snoc: "run_tree_ops (ops @ [x]) = apply_tree_op (run_tree_ops ops) x"
  by (simp add: run_tree_ops_def)

lemma bst_ordering_reachable: "spec_bst_ordering (root (run_tree_ops ops))"
proof (induction ops rule: rev_induct)
  case Nil
  show ?case by (simp add: run_tree_ops_def new_tree_def)
next
  case (snoc x ops)
  then show ?case
    by (cases x)
      (simp_all add: run_tree_ops_snoc BinarySearchTree_insert_def BinarySearchTree_remove_def
        bst_ordering_insert bst_ordering_remove)
qed

lemma is_valid_bst_reachable_iff:
  "is_valid_bst (run_tree_ops ops) =
     (\<forall>k \<in> tree_keys (root (run_tree_ops ops)). INT_MIN < k \<and> k < INT_MAX)"
  by (simp add: is_valid_bst_def check_bst_recursive_iff bst_ordering_reachable)

text \<open>
  Claim C10. The strict ordering of the keys is kept by every sequence of inserts and
  removes (\<open>bst_ordering_reachable\<close>), and the audit's ordering check should therefore
  pass in every reachable state. The check starts from the exclusive bounds \<open>INT_MIN\<close>
  and \<open>INT_MAX\<close>, so it fails on the one-node tree that holds \<open>INT_MIN\<close>, and on the one
  that holds \<open>INT_MAX\<close>.
\<close>

theorem ordering_check_rejects_INT_MIN:
  "root (run_tree_ops [Insert INT_MIN]) = Node INT_MIN nullptr nullptr 1 1
   \<and> spec_bst_ordering (root (run_tree_ops [Insert INT_MIN]))
   \<and> \<not> is_valid_bst (run_tree_ops [Insert INT_MIN])
   \<and> \<not> is_valid_bst (run_tree_ops [Insert INT_MAX])"
  by (simp add: run_tree_ops_def new_tree_def BinarySearchTree_insert_def make_node_def
      is_valid_bst_def)

section \<open>The queue: upward sift and audit\<close>

lemma ord_ok_trans: "ord_ok mx a b \<Longrightarrow> ord_ok mx b c \<Longrightarrow> ord_ok mx a c"
  by (auto simp: ord_ok_def split: if_splits)

lemma ord_ok_total: "\<not> ord_ok mx a b \<Longrightarrow> ord_ok mx b a"
  by (auto simp: ord_ok_def split: if_splits)

lemma should_swap_iff:
  "(if mx then (c::int) > p else c < p) = (\<not> ord_ok mx p c)"
  by (auto simp: ord_ok_def)

lemma swap_heap_fields [simp]:
  "is_max_heap (swap_heap pq i j) = is_max_heap pq"
  "length (heap (swap_heap pq i j)) = length (heap pq)"
  by (simp_all add: swap_heap_def)

lemma swap_heap_nth:
  "i < length (heap pq) \<Longrightarrow> j < length (heap pq) \<Longrightarrow> m < length (heap pq) \<Longrightarrow>
   heap (swap_heap pq i j) ! m =
     (if m = j then heap pq ! i else if m = i then heap pq ! j else heap pq ! m)"
  by (simp add: swap_heap_def nth_list_update)

lemma mset_swap_heap:
  "i < length (heap pq) \<Longrightarrow> j < length (heap pq) \<Longrightarrow>
   mset (heap (swap_heap pq i j)) = mset (heap pq)"
  by (simp add: swap_heap_def mset_swap)

lemma parent_less: "0 < k \<Longrightarrow> (k - 1) div 2 < (k::nat)"
  by arith

lemma sift_up_step:
  assumes k: "0 < k" "k < length (heap pq)"
    and ex: "heap_order_except pq k"
    and viol: "\<not> ord_ok (is_max_heap pq) (heap pq ! ((k - 1) div 2)) (heap pq ! k)"
  shows "heap_order_except (swap_heap pq k ((k - 1) div 2)) ((k - 1) div 2)"
proof -
  define p where "p = (k - 1) div 2"
  define h where "h = heap pq"
  define mx where "mx = is_max_heap pq"
  define h' where "h' = heap (swap_heap pq k p)"
  have pk: "p < k" using k(1) by (simp add: p_def parent_less)
  have pn: "p < length h" using pk k(2) by (simp add: h_def)
  have kn: "k < length h" using k(2) by (simp add: h_def)
  have nth': "\<And>m. m < length h \<Longrightarrow>
      h' ! m = (if m = p then h ! k else if m = k then h ! p else h ! m)"
    unfolding h'_def h_def using swap_heap_nth [of k pq p] pn kn by (simp add: h_def)
  have A: "\<And>i. 0 < i \<Longrightarrow> i < length h \<Longrightarrow> i \<noteq> k \<Longrightarrow> ord_ok mx (h ! ((i - 1) div 2)) (h ! i)"
    using ex by (simp add: heap_order_except_def h_def mx_def)
  have B: "\<And>i. 0 < k \<Longrightarrow> 0 < i \<Longrightarrow> i < length h \<Longrightarrow> (i - 1) div 2 = k \<Longrightarrow>
      ord_ok mx (h ! p) (h ! i)"
    using ex by (simp add: heap_order_except_def h_def mx_def p_def)
  have kp: "ord_ok mx (h ! k) (h ! p)"
    using viol ord_ok_total by (simp add: h_def mx_def p_def)
  have A': "ord_ok mx (h' ! ((i - 1) div 2)) (h' ! i)"
    if i: "0 < i" "i < length h" "i \<noteq> p" for i
  proof -
    have qi: "(i - 1) div 2 < i" using i(1) by (rule parent_less)
    then have qn: "(i - 1) div 2 < length h" using i(2) by simp
    show ?thesis
    proof (cases "i = k")
      case True
      then show ?thesis using kp nth' [of k] nth' [of p] kn pn pk by (simp add: p_def)
    next
      case ik: False
      have hi: "h' ! i = h ! i" using nth' [OF i(2)] i(3) ik by simp
      consider (par_p) "(i - 1) div 2 = p" | (par_k) "(i - 1) div 2 = k"
        | (other) "(i - 1) div 2 \<noteq> p" "(i - 1) div 2 \<noteq> k" by blast
      then show ?thesis
      proof cases
        case par_p
        have "ord_ok mx (h ! p) (h ! i)" using A [OF i(1) i(2) ik] par_p by simp
        then have "ord_ok mx (h ! k) (h ! i)" using kp ord_ok_trans by blast
        then show ?thesis using hi par_p nth' [OF pn] by simp
      next
        case par_k
        have "ord_ok mx (h ! p) (h ! i)" using B [OF k(1) i(1) i(2) par_k] .
        then show ?thesis using hi par_k nth' [OF kn] pk by simp
      next
        case other
        then have "h' ! ((i - 1) div 2) = h ! ((i - 1) div 2)" using nth' [OF qn] by simp
        then show ?thesis using hi A [OF i(1) i(2) ik] by simp
      qed
    qed
  qed
  have B': "ord_ok mx (h' ! ((p - 1) div 2)) (h' ! i)"
    if i: "0 < p" "0 < i" "i < length h" "(i - 1) div 2 = p" for i
  proof -
    have qp: "(p - 1) div 2 < p" using i(1) by (rule parent_less)
    then have qn: "(p - 1) div 2 < length h" using pn by simp
    have hq: "h' ! ((p - 1) div 2) = h ! ((p - 1) div 2)"
      using nth' [OF qn] qp pk by simp
    have gp: "ord_ok mx (h ! ((p - 1) div 2)) (h ! p)"
      using A [OF i(1) pn] pk by simp
    have ip: "i \<noteq> p" using parent_less [OF i(2)] i(4) by simp
    show ?thesis
    proof (cases "i = k")
      case True
      then show ?thesis using hq gp nth' [OF kn] pk by simp
    next
      case False
      then have "ord_ok mx (h ! p) (h ! i)" using A [OF i(2) i(3)] i(4) by simp
      then have "ord_ok mx (h ! ((p - 1) div 2)) (h ! i)" using gp ord_ok_trans by blast
      then show ?thesis using hq nth' [OF i(3)] ip False by simp
    qed
  qed
  show ?thesis
    unfolding heap_order_except_def
    using A' B' by (simp add: h'_def h_def mx_def p_def)
qed

lemma heap_order_except_0: "heap_order_except pq 0 \<Longrightarrow> spec_heap_order pq"
  by (simp add: heap_order_except_def spec_heap_order_def)

lemma heap_order_except_ok:
  "heap_order_except pq k \<Longrightarrow>
   ord_ok (is_max_heap pq) (heap pq ! ((k - 1) div 2)) (heap pq ! k) \<Longrightarrow> spec_heap_order pq"
  unfolding heap_order_except_def spec_heap_order_def by metis

lemma heap_up_restores:
  "k < length (heap pq) \<Longrightarrow> heap_order_except pq k \<Longrightarrow> spec_heap_order (heap_up pq k)"
proof (induction pq k rule: heap_up.induct)
  case (1 pq index)
  show ?case
  proof (cases "index = 0")
    case True
    then show ?thesis using "1.prems" heap_order_except_0 by (simp add: heap_up.simps)
  next
    case nz: False
    define p where "p = (index - 1) div 2"
    show ?thesis
    proof (cases "ord_ok (is_max_heap pq) (heap pq ! p) (heap pq ! index)")
      case True
      then have "heap_up pq index = pq"
        using nz by (subst heap_up.simps) (simp add: Let_def should_swap_iff p_def)
      then show ?thesis using heap_order_except_ok [OF "1.prems"(2)] True by (simp add: p_def)
    next
      case False
      then have eq: "heap_up pq index = heap_up (swap_heap pq index p) p"
        using nz by (subst heap_up.simps) (simp add: Let_def should_swap_iff p_def)
      have sw: "(if is_max_heap pq then heap pq ! p < heap pq ! index
                 else heap pq ! index < heap pq ! p)"
        using False by (auto simp: ord_ok_def split: if_splits)
      have step: "heap_order_except (swap_heap pq index p) p"
        unfolding p_def using sift_up_step [of index pq] nz "1.prems" False by (simp add: p_def)
      have pl: "p < length (heap (swap_heap pq index p))"
        using nz "1.prems"(1) parent_less [of index] by (simp add: p_def)
      have "spec_heap_order (heap_up (swap_heap pq index p) p)"
        using "1.IH" [OF nz p_def refl _ pl step] sw by (simp add: p_def)
      then show ?thesis using eq by simp
    qed
  qed
qed


lemma heap_up_fields:
  "k < length (heap pq) \<Longrightarrow>
   is_max_heap (heap_up pq k) = is_max_heap pq \<and>
   length (heap (heap_up pq k)) = length (heap pq) \<and>
   mset (heap (heap_up pq k)) = mset (heap pq)"
proof (induction pq k rule: heap_up.induct)
  case (1 pq index)
  show ?case
  proof (cases "index = 0")
    case True
    then show ?thesis by (simp add: heap_up.simps)
  next
    case nz: False
    define p where "p = (index - 1) div 2"
    have pl: "p < length (heap pq)"
      using nz "1.prems" parent_less [of index] by (simp add: p_def)
    show ?thesis
    proof (cases "ord_ok (is_max_heap pq) (heap pq ! p) (heap pq ! index)")
      case False
      then have eq: "heap_up pq index = heap_up (swap_heap pq index p) p"
        using nz by (subst heap_up.simps) (simp add: Let_def should_swap_iff p_def)
      have sw: "(if is_max_heap pq then heap pq ! p < heap pq ! index
                 else heap pq ! index < heap pq ! p)"
        using False by (auto simp: ord_ok_def split: if_splits)
      have pl': "p < length (heap (swap_heap pq index p))" using pl by simp
      have "is_max_heap (heap_up (swap_heap pq index p) p) = is_max_heap (swap_heap pq index p) \<and>
            length (heap (heap_up (swap_heap pq index p) p)) = length (heap (swap_heap pq index p)) \<and>
            mset (heap (heap_up (swap_heap pq index p) p)) = mset (heap (swap_heap pq index p))"
        using "1.IH" [OF nz p_def refl _ pl'] sw by (simp add: p_def)
      then show ?thesis using eq mset_swap_heap [OF "1.prems" pl] by simp
    next
      case True
      then have "heap_up pq index = pq"
        using nz by (subst heap_up.simps) (simp add: Let_def should_swap_iff p_def)
      then show ?thesis by simp
    qed
  qed
qed

lemma heap_order_append:
  "spec_heap_order pq \<Longrightarrow> heap_order_except (pq\<lparr>heap := heap pq @ [v]\<rparr>) (length (heap pq))"
proof -
  assume ho: "spec_heap_order pq"
  have A: "ord_ok (is_max_heap pq) ((heap pq @ [v]) ! ((i - 1) div 2)) ((heap pq @ [v]) ! i)"
    if "0 < i" "i < length (heap pq)" for i
  proof -
    have "(i - 1) div 2 < length (heap pq)" using parent_less [OF that(1)] that(2) by simp
    then show ?thesis using ho that by (simp add: spec_heap_order_def nth_append)
  qed
  have B: "\<not> (0 < i \<and> i < Suc (length (heap pq)) \<and> (i - 1) div 2 = length (heap pq))" for i
    by arith
  show ?thesis
    unfolding heap_order_except_def using A B
    by (auto simp: less_Suc_eq)
qed

lemma insert_keeps_heap_order:
  "spec_heap_order pq \<Longrightarrow> spec_heap_order (PriorityQueue_insert pq v)"
  unfolding PriorityQueue_insert_def Let_def
  using heap_up_restores [of "length (heap pq)" "pq\<lparr>heap := heap pq @ [v]\<rparr>"]
        heap_order_append [of pq v]
  by simp

lemma insert_fields:
  "is_max_heap (PriorityQueue_insert pq v) = is_max_heap pq \<and>
   length (heap (PriorityQueue_insert pq v)) = Suc (length (heap pq)) \<and>
   mset (heap (PriorityQueue_insert pq v)) = add_mset v (mset (heap pq))"
  unfolding PriorityQueue_insert_def Let_def
  using heap_up_fields [of "length (heap pq)" "pq\<lparr>heap := heap pq @ [v]\<rparr>"]
  by simp

lemma check_heap_from_iff:
  "check_heap_from pq i =
     (\<forall>j. i \<le> j \<and> j < length (heap pq) \<longrightarrow>
        (2 * j + 1 < length (heap pq) \<longrightarrow>
           ord_ok (is_max_heap pq) (heap pq ! j) (heap pq ! (2 * j + 1))) \<and>
        (2 * j + 2 < length (heap pq) \<longrightarrow>
           ord_ok (is_max_heap pq) (heap pq ! j) (heap pq ! (2 * j + 2))))"
proof (induction pq i rule: check_heap_from.induct)
  case (1 pq i)
  show ?case
  proof (cases "i < length (heap pq)")
    case False
    then show ?thesis by (subst check_heap_from.simps) auto
  next
    case il: True
    let ?L = "2 * i + 1 < length (heap pq) \<longrightarrow>
           ord_ok (is_max_heap pq) (heap pq ! i) (heap pq ! (2 * i + 1))"
    let ?R = "2 * i + 2 < length (heap pq) \<longrightarrow>
           ord_ok (is_max_heap pq) (heap pq ! i) (heap pq ! (2 * i + 2))"
    show ?thesis
    proof (cases "?L \<and> ?R")
      case False
      then have "\<not> check_heap_from pq i"
        using il by (subst check_heap_from.simps) (auto simp: Let_def ord_ok_def)
      moreover have "i \<le> i \<and> i < length (heap pq)" using il by simp
      ultimately show ?thesis using False by blast
    next
      case True
      then have eq: "check_heap_from pq i = check_heap_from pq (i + 1)"
        using il by (subst check_heap_from.simps) (auto simp: Let_def ord_ok_def)
      have ih: "check_heap_from pq (i + 1) =
        (\<forall>j. i + 1 \<le> j \<and> j < length (heap pq) \<longrightarrow>
        (2 * j + 1 < length (heap pq) \<longrightarrow>
           ord_ok (is_max_heap pq) (heap pq ! j) (heap pq ! (2 * j + 1))) \<and>
        (2 * j + 2 < length (heap pq) \<longrightarrow>
           ord_ok (is_max_heap pq) (heap pq ! j) (heap pq ! (2 * j + 2))))"
        using "1.IH" [OF il refl refl] True by (auto simp: ord_ok_def)
      have split: "i \<le> j \<longleftrightarrow> j = i \<or> i + 1 \<le> j" for j by arith
      show ?thesis unfolding eq ih using True by (auto simp: split)
    qed
  qed
qed

lemma check_heap_property_iff: "check_heap_property pq = spec_heap_order pq"
proof
  assume c: "check_heap_property pq"
  show "spec_heap_order pq"
    unfolding spec_heap_order_def
  proof (intro allI impI)
    fix i assume i: "0 < i \<and> i < length (heap pq)"
    define j where "j = (i - 1) div 2"
    have ji: "i = 2 * j + 1 \<or> i = 2 * j + 2" using i by (simp add: j_def) arith
    have jl: "j < length (heap pq)" using i parent_less [of i] by (simp add: j_def)
    from c have "(2 * j + 1 < length (heap pq) \<longrightarrow>
           ord_ok (is_max_heap pq) (heap pq ! j) (heap pq ! (2 * j + 1))) \<and>
        (2 * j + 2 < length (heap pq) \<longrightarrow>
           ord_ok (is_max_heap pq) (heap pq ! j) (heap pq ! (2 * j + 2)))"
      using jl by (simp add: check_heap_property_def check_heap_from_iff)
    then show "ord_ok (is_max_heap pq) (heap pq ! ((i - 1) div 2)) (heap pq ! i)"
      using ji i unfolding j_def [symmetric] by auto
  qed
next
  assume h: "spec_heap_order pq"
  have "ord_ok (is_max_heap pq) (heap pq ! j) (heap pq ! (2 * j + 1))"
    if "2 * j + 1 < length (heap pq)" for j
  proof -
    have "(2 * j + 1 - 1) div 2 = j" by simp
    moreover have "0 < 2 * j + 1" by simp
    ultimately show ?thesis using h that unfolding spec_heap_order_def by metis
  qed
  moreover have "ord_ok (is_max_heap pq) (heap pq ! j) (heap pq ! (2 * j + 2))"
    if "2 * j + 2 < length (heap pq)" for j
  proof -
    have "(2 * j + 2 - 1) div 2 = j" by arith
    moreover have "0 < 2 * j + 2" by simp
    ultimately show ?thesis using h that unfolding spec_heap_order_def by metis
  qed
  ultimately show "check_heap_property pq"
    by (simp add: check_heap_property_def check_heap_from_iff)
qed

lemma heap_order_new_queue: "spec_heap_order (new_queue mx)"
  by (simp add: spec_heap_order_def new_queue_def)

lemma insert_values_snoc:
  "insert_values mx (vs @ [v]) = PriorityQueue_insert (insert_values mx vs) v"
  by (simp add: insert_values_def)

lemma heap_order_insert_values: "spec_heap_order (insert_values mx vs)"
proof (induction vs rule: rev_induct)
  case Nil
  show ?case by (simp add: insert_values_def heap_order_new_queue)
next
  case (snoc v vs)
  then show ?case by (simp add: insert_values_snoc insert_keeps_heap_order)
qed

lemma insert_values_fields:
  "is_max_heap (insert_values mx vs) = mx \<and> mset (heap (insert_values mx vs)) = mset vs"
proof (induction vs rule: rev_induct)
  case Nil
  show ?case by (simp add: insert_values_def new_queue_def)
next
  case (snoc v vs)
  then show ?case using insert_fields [of "insert_values mx vs" v] by (simp add: insert_values_snoc)
qed

text \<open>
  Claim C9. For every sequence \<open>vs\<close> of values inserted into a fresh queue, max-first or
  min-first, the heap-order audit passes after each insertion, that is after every prefix
  \<open>take n vs\<close>; the mode is unchanged and the vector holds exactly the values inserted.
\<close>

theorem heap_audit_after_every_insert:
  "check_heap_property (insert_values mx (take n vs))
   \<and> is_max_heap (insert_values mx (take n vs)) = mx
   \<and> mset (heap (insert_values mx (take n vs))) = mset (take n vs)"
  using heap_order_insert_values [of mx "take n vs"] insert_values_fields [of mx "take n vs"]
  by (simp add: check_heap_property_iff)

section \<open>The queue: extraction\<close>

lemma heap_down_fields:
  "is_max_heap (heap_down pq k) = is_max_heap pq \<and>
   length (heap (heap_down pq k)) = length (heap pq) \<and>
   mset (heap (heap_down pq k)) = mset (heap pq)"
proof (induction pq k rule: heap_down.induct)
  case (1 pq index)
  define target1 where "target1 =
     (if 2 * index + 1 < length (heap pq) \<and>
         (if is_max_heap pq then heap pq ! (2 * index + 1) > heap pq ! index
          else heap pq ! (2 * index + 1) < heap pq ! index)
      then 2 * index + 1 else index)"
  define target where "target =
     (if 2 * index + 2 < length (heap pq) \<and>
         (if is_max_heap pq then heap pq ! (2 * index + 2) > heap pq ! target1
          else heap pq ! (2 * index + 2) < heap pq ! target1)
      then 2 * index + 2 else target1)"
  have unfold: "heap_down pq index =
      (if target \<noteq> index then heap_down (swap_heap pq index target) target else pq)"
    by (subst heap_down.simps) (simp add: Let_def target_def target1_def)
  show ?case
  proof (cases "target = index")
    case True
    then show ?thesis using unfold by simp
  next
    case False
    have tl: "target < length (heap pq)" and it: "index < target"
      using False by (auto simp: target_def target1_def split: if_splits)
    have il: "index < length (heap pq)" using tl it by simp
    have "is_max_heap (heap_down (swap_heap pq index target) target) = is_max_heap (swap_heap pq index target) \<and>
          length (heap (heap_down (swap_heap pq index target) target)) = length (heap (swap_heap pq index target)) \<and>
          mset (heap (heap_down (swap_heap pq index target) target)) = mset (heap (swap_heap pq index target))"
      using "1.IH" [OF refl refl refl target1_def target_def False] .
    then show ?thesis using unfold False mset_swap_heap [OF il tl] by simp
  qed
qed

text \<open>
  Claim C8. \<open>extract_top\<close> fails with the empty-container error exactly when the vector
  has no element. On a vector of \<open>n > 0\<close> elements it returns the element at index 0 and
  leaves the vector in which the last element has been moved to index 0 and the tail
  dropped, sifted down from index 0 when more than three elements remain: \<open>n - 1\<close>
  elements, the same values but the one returned, in the same mode.
\<close>

theorem extract_top_result:
  "((\<exists>e. extract_top pq = Inl e) = (length (heap pq) = 0)) \<and>
   (extract_top pq = Inl EmptyContainer) = (length (heap pq) = 0) \<and>
   (length (heap pq) \<noteq> 0 \<longrightarrow>
      (\<exists>pq'. extract_top pq = Inr (heap pq ! 0, pq') \<and>
         pq' = (if 3 < length (heap pq) - 1
                then heap_down (pq\<lparr>heap := butlast ((heap pq)[0 := last (heap pq)])\<rparr>) 0
                else pq\<lparr>heap := butlast ((heap pq)[0 := last (heap pq)])\<rparr>) \<and>
         length (heap pq') = length (heap pq) - 1 \<and>
         mset (heap pq') = mset (butlast ((heap pq)[0 := last (heap pq)])) \<and>
         is_max_heap pq' = is_max_heap pq))"
proof (cases "heap pq = []")
  case True
  then show ?thesis by (simp add: extract_top_def)
next
  case False
  define pq2 where "pq2 = pq\<lparr>heap := butlast ((heap pq)[0 := last (heap pq)])\<rparr>"
  have l2: "length (heap pq2) = length (heap pq) - 1" by (simp add: pq2_def)
  have eq: "extract_top pq =
      Inr (heap pq ! 0, if 3 < length (heap pq) - 1 then heap_down pq2 0 else pq2)"
  proof (cases "heap pq2 = []")
    case True
    then have "length (heap pq) - 1 = 0" using l2 by simp
    then show ?thesis using False True by (simp add: extract_top_def Let_def pq2_def)
  next
    case ne: False
    then show ?thesis using False by (simp add: extract_top_def Let_def pq2_def)
  qed
  have "length (heap (heap_down pq2 0)) = length (heap pq) - 1 \<and>
        mset (heap (heap_down pq2 0)) = mset (heap pq2) \<and>
        is_max_heap (heap_down pq2 0) = is_max_heap pq"
    using heap_down_fields [of pq2 0] l2 by (simp add: pq2_def)
  then show ?thesis using False eq l2 by (simp add: pq2_def)
qed

theorem extract_top_result_witness:
  "length (heap \<lparr>heap = [7, 3, 5, 2], is_max_heap = True\<rparr>) \<noteq> 0 \<and>
   (\<exists>pq'. extract_top \<lparr>heap = [7, 3, 5, 2], is_max_heap = True\<rparr> = Inr (7, pq') \<and>
          pq' = \<lparr>heap = [2, 3, 5], is_max_heap = True\<rparr> \<and>
          length (heap pq') = 3) \<and>
   extract_top \<lparr>heap = [], is_max_heap = True\<rparr> = Inl EmptyContainer"
  using extract_top_result [of "\<lparr>heap = [7, 3, 5, 2], is_max_heap = True\<rparr>"]
        extract_top_result [of "\<lparr>heap = [], is_max_heap = True\<rparr>"]
  by simp

text \<open>
  Claim C2. After every \<open>extract_top\<close> that leaves a non-empty vector the element moved
  to the root should be sifted down, whatever the size, so that the heap order holds
  afterwards. The code sifts only when more than three elements remain: from the
  max-first heap built by inserting 3, 2, 1, 0, which passes the audit, the call returns 3
  and leaves \<open>[0, 2, 1]\<close>, which fails it.
\<close>

theorem extract_top_small_heap_not_sifted:
  "heap (insert_values True [3, 2, 1, 0]) = [3, 2, 1, 0]
   \<and> check_heap_property (insert_values True [3, 2, 1, 0])
   \<and> extract_top (insert_values True [3, 2, 1, 0])
       = Inr (3, \<lparr>heap = [0, 2, 1], is_max_heap = True\<rparr>)
   \<and> \<not> check_heap_property \<lparr>heap = [0, 2, 1], is_max_heap = True\<rparr>"
  by code_simp

text \<open>
  Claim C6. After inserting 5, 10, 3, 8, 15, 2, 12, 7 into a fresh max-first heap the
  audit passes, and eight calls of \<open>extract_top\<close> should return 15, 12, 10, 8, 7, 5, 3, 2.
  They return 15, 12, 10, 8, 7, 2, 5, 3: the sequence is not non-increasing.
\<close>

theorem extract_sequence_out_of_order:
  "check_heap_property (insert_values True [5, 10, 3, 8, 15, 2, 12, 7])
   \<and> extract_n 8 (insert_values True [5, 10, 3, 8, 15, 2, 12, 7])
       = Inr ([15, 12, 10, 8, 7, 2, 5, 3], \<lparr>heap = [], is_max_heap = True\<rparr>)
   \<and> \<not> sorted (rev [15, 12, 10, 8, 7, 2, 5, 3 :: int])"
  by code_simp

end
